theory Spec2Isabelle
  imports Main
begin

text \<open>
  A shallow embedding of the decision logic of the organization collaborator report, in
  its JavaScript form (index.js) and its PowerShell form (the export script with team
  permissions and its predecessor \<^verbatim>\<open>Get-GitHubOrgRepoCollaborators.ps1\<close>): the retry
  wrappers, the pagination loops, the permission scans, and the merge of direct and
  team grants with its filters. The transport is abstracted to the responses it gives;
  all definitions come first, the properties after them.
\<close>

section \<open>Strings as PowerShell and JavaScript compare them\<close>

text \<open>
  PowerShell's \<^verbatim>\<open>-eq\<close> on strings, its property access and its hashtable literals ignore
  letter case; \<^verbatim>\<open>ToLower()\<close> folds it. The model folds the ASCII letters, which covers every
  repository name, login, team slug and permission word of the GitHub API. JavaScript's
  \<^verbatim>\<open>===\<close> and .NET's \<^verbatim>\<open>Array.IndexOf\<close> compare exactly and are plain HOL equality.
  PowerShell's \<^verbatim>\<open>$null\<close> in a string position is the empty string of the model.
\<close>

definition to_lower :: "char \<Rightarrow> char" where
  "to_lower c =
     (case map_of (zip ''ABCDEFGHIJKLMNOPQRSTUVWXYZ'' ''abcdefghijklmnopqrstuvwxyz'') c of
        Some l \<Rightarrow> l
      | None \<Rightarrow> c)"

definition ToLower :: "string \<Rightarrow> string" where
  "ToLower s = map to_lower s"

definition ps_eq :: "string \<Rightarrow> string \<Rightarrow> bool" where
  "ps_eq a b = (ToLower a = ToLower b)"

text \<open>\<^verbatim>\<open>[string]::IsNullOrWhiteSpace\<close>, on the blank characters of ASCII.\<close>

definition IsNullOrWhiteSpace :: "string \<Rightarrow> bool" where
  "IsNullOrWhiteSpace s =
     list_all (\<lambda>c. c \<in> set [CHR '' '', CHR 0x09, CHR 0x0A, CHR 0x0B, CHR 0x0C, CHR 0x0D]) s"

text \<open>JavaScript's \<^verbatim>\<open>String.prototype.includes\<close>: \<open>t\<close> occurs in \<open>s\<close> as a contiguous run.\<close>

fun str_includes :: "string \<Rightarrow> string \<Rightarrow> bool" where
  "str_includes [] t = (t = [])"
| "str_includes (c # cs) t = (take (length t) (c # cs) = t \<or> str_includes cs t)"

section \<open>Retry with exponential backoff\<close>

text \<open>
  The wrapped call is a transport stub: \<open>fn i\<close> is the outcome of its \<open>i\<close>-th invocation,
  counted from 0. Every iteration of the retry loops invokes it exactly once, so the loop
  index is the invocation number. A run yields how the wrapper completed and the backoff
  delays it slept, in milliseconds and in order.
\<close>

datatype 'a outcome = Resolved 'a | Rejected string

datatype 'a completion = Returned 'a | ReturnedNothing | Threw string

text \<open>
  \<^verbatim>\<open>retryWithBackoff(fn, location, retries = 5, delay = 2000)\<close> of index.js: the \<^verbatim>\<open>for\<close>
  loop from index \<open>i\<close>. An error is rethrown on the last index and whenever its message does
  not contain \<^verbatim>\<open>secondary rate limit\<close>; a loop that runs out returns \<^verbatim>\<open>undefined\<close>.
\<close>

function retryWithBackoff_loop ::
  "(nat \<Rightarrow> 'a outcome) \<Rightarrow> nat \<Rightarrow> nat \<Rightarrow> nat \<Rightarrow> nat list \<Rightarrow> 'a completion \<times> nat list" where
  "retryWithBackoff_loop fn retries delay i slept =
     (if i < retries then
        (case fn i of
           Resolved v \<Rightarrow> (Returned v, slept)
         | Rejected message \<Rightarrow>
             if i = retries - 1 \<or> \<not> str_includes message ''secondary rate limit''
             then (Threw message, slept)
             else retryWithBackoff_loop fn retries delay (i + 1) (slept @ [delay * 2 ^ i]))
      else (ReturnedNothing, slept))"
  by pat_completeness auto
termination
  by (relation "measure (\<lambda>(fn, retries, delay, i, slept). retries - i)") auto

declare retryWithBackoff_loop.simps [simp del]

definition retryWithBackoff :: "(nat \<Rightarrow> 'a outcome) \<Rightarrow> nat \<Rightarrow> nat \<Rightarrow> 'a completion \<times> nat list" where
  "retryWithBackoff fn retries delay = retryWithBackoff_loop fn retries delay 0 []"

text \<open>
  \<^verbatim>\<open>Invoke-GitHubREST\<close> of the PowerShell script (\<^verbatim>\<open>Invoke-GitHubGraphQL\<close> has the same
  loop): every caught error is retried, whatever its kind, except on the last index.
  \<^verbatim>\<open>Wait-IfRateLimited\<close>, which may sleep until the quota resets before an attempt, does not
  change the control flow of the loop and is left out of the recorded delays.
\<close>

function Invoke_GitHubREST_loop ::
  "(nat \<Rightarrow> 'a outcome) \<Rightarrow> nat \<Rightarrow> nat \<Rightarrow> nat \<Rightarrow> nat list \<Rightarrow> 'a completion \<times> nat list" where
  "Invoke_GitHubREST_loop fn RetryCount Delay i slept =
     (if i < RetryCount then
        (case fn i of
           Resolved v \<Rightarrow> (Returned v, slept)
         | Rejected message \<Rightarrow>
             if i = RetryCount - 1
             then (Threw message, slept)
             else Invoke_GitHubREST_loop fn RetryCount Delay (i + 1) (slept @ [Delay * 2 ^ i]))
      else (ReturnedNothing, slept))"
  by pat_completeness auto
termination
  by (relation "measure (\<lambda>(fn, RetryCount, Delay, i, slept). RetryCount - i)") auto

declare Invoke_GitHubREST_loop.simps [simp del]

definition Invoke_GitHubREST :: "(nat \<Rightarrow> 'a outcome) \<Rightarrow> nat \<Rightarrow> nat \<Rightarrow> 'a completion \<times> nat list" where
  "Invoke_GitHubREST fn RetryCount Delay = Invoke_GitHubREST_loop fn RetryCount Delay 0 []"

text \<open>The outcomes a loop retries: JavaScript only the secondary rate limit, PowerShell all.\<close>

definition secondary :: "'a outcome \<Rightarrow> bool" where
  "secondary r = (case r of Resolved v \<Rightarrow> False | Rejected m \<Rightarrow> str_includes m ''secondary rate limit'')"

definition failed :: "'a outcome \<Rightarrow> bool" where
  "failed r = (case r of Resolved v \<Rightarrow> False | Rejected m \<Rightarrow> True)"


section \<open>Page-numbered REST collections\<close>






section \<open>Cursor-based GraphQL collections\<close>

text \<open>
  A connection page: its edges (or nodes), and \<^verbatim>\<open>pageInfo.hasNextPage\<close> and
  \<^verbatim>\<open>pageInfo.endCursor\<close>. Cursors are opaque tokens of type \<open>'c\<close>; \<open>None\<close> is \<^verbatim>\<open>null\<close>.
\<close>

record ('a, 'c) page =
  edges :: "'a list"
  hasNextPage :: bool
  endCursor :: "'c option"

text \<open>
  The \<^verbatim>\<open>for (const item of items)\<close> loop shared by \<^verbatim>\<open>repoNames\<close>, \<^verbatim>\<open>collabRole\<close>,
  \<^verbatim>\<open>ssoEmail\<close> and \<^verbatim>\<open>membersWithRole\<close> of index.js: the cursor variable is assigned in every
  iteration, before \<open>body\<close> handles the item, and nowhere else.
\<close>

definition for_of_page ::
  "('a \<Rightarrow> 's \<Rightarrow> 's) \<Rightarrow> ('a, 'c) page \<Rightarrow> 'c option \<times> 's \<Rightarrow> 'c option \<times> 's" where
  "for_of_page body dataJSON st =
     fold (\<lambda>item (cursor, s).
             ((if hasNextPage dataJSON then endCursor dataJSON else None), body item s))
          (edges dataJSON) st"

text \<open>The enclosing \<^verbatim>\<open>do { ... } while (hasNextPage)\<close>; a loop that never leaves is \<open>None\<close>.\<close>

partial_function (option) cursor_loop ::
  "('a \<Rightarrow> 's \<Rightarrow> 's) \<Rightarrow> ('c option \<Rightarrow> ('a, 'c) page) \<Rightarrow> 'c option \<Rightarrow> 's \<Rightarrow> 's option" where
  "cursor_loop body fetch cursor s =
     (let dataJSON = fetch cursor;
          (cursor', s') = for_of_page body dataJSON (cursor, s)
      in if hasNextPage dataJSON then cursor_loop body fetch cursor' s' else Some s')"


text \<open>\<^verbatim>\<open>membersWithRole\<close>: an edge carries \<^verbatim>\<open>node.login\<close> and \<^verbatim>\<open>role\<close>.\<close>

record member =
  member_login :: string
  member_role :: string


text \<open>
  \<^verbatim>\<open>ssoEmail\<close>: an external identity carries \<^verbatim>\<open>node.samlIdentity.nameId\<close> and \<^verbatim>\<open>node.user\<close>,
  which is \<^verbatim>\<open>null\<close> (\<open>None\<close>) when no account is linked and otherwise holds the login.
\<close>

record external_identity =
  samlIdentity_nameId :: string
  user :: "string option"

record sso_email =
  sso_login :: string
  ssoEmail :: string

definition ssoEmail_body :: "external_identity \<Rightarrow> sso_email list \<Rightarrow> sso_email list" where
  "ssoEmail_body email emailArray =
     (case user email of
        None \<Rightarrow> emailArray
      | Some login \<Rightarrow> emailArray @ [\<lparr>sso_login = login, ssoEmail = samlIdentity_nameId email\<rparr>])"

definition ssoEmail_graphql ::
  "('c option \<Rightarrow> (external_identity, 'c) page) \<Rightarrow> sso_email list \<Rightarrow> sso_email list option" where
  "ssoEmail_graphql fetch emailArray = cursor_loop ssoEmail_body fetch None emailArray"

text \<open>
  The edge loop of \<^verbatim>\<open>Get-GitHubOrgSSOEmails\<close> in the PowerShell script:
  \<^verbatim>\<open>if ($edge.node.user) { $emailArray += ... }\<close>.
\<close>

definition Get_GitHubOrgSSOEmails_edges ::
  "external_identity list \<Rightarrow> sso_email list \<Rightarrow> sso_email list" where
  "Get_GitHubOrgSSOEmails_edges edge_list emailArray =
     fold (\<lambda>edge emailArray.
             case user edge of
               Some login \<Rightarrow> emailArray @ [\<lparr>sso_login = login, ssoEmail = samlIdentity_nameId edge\<rparr>]
             | None \<Rightarrow> emailArray)
          edge_list emailArray"

text \<open>
  A synthetic cursor source holding the pages \<open>ps\<close>: the cursor handed out with page \<open>i\<close>
  is the index of page \<open>i + 1\<close>, and every page but the last reports a next page.
\<close>

definition page_index :: "nat option \<Rightarrow> nat" where
  "page_index cursor = (case cursor of None \<Rightarrow> 0 | Some c \<Rightarrow> c)"

definition serve :: "'a list list \<Rightarrow> nat option \<Rightarrow> ('a, nat) page" where
  "serve ps cursor =
     (let i = page_index cursor
      in \<lparr>edges = (if i < length ps then ps ! i else []),
          hasNextPage = (i + 1 < length ps),
          endCursor = (if i < length ps then Some (i + 1) else None)\<rparr>)"

section \<open>Permission vocabulary\<close>

text \<open>
  \<^verbatim>\<open>$permissionDisplay\<close>, from the flag name of the REST API to the displayed level. A
  hashtable look-up ignores case and yields \<^verbatim>\<open>$null\<close> for a missing key.
\<close>

definition permissionDisplay :: "string \<Rightarrow> string" where
  "permissionDisplay k =
     (case map_of [(''pull'', ''read''), (''push'', ''write''), (''admin'', ''admin''),
                   (''maintain'', ''maintain''), (''triage'', ''triage'')] (ToLower k) of
        Some v \<Rightarrow> v
      | None \<Rightarrow> '''')"

text \<open>\<^verbatim>\<open>$order\<close> of step 9 and \<^verbatim>\<open>$order.IndexOf\<close>, which is \<open>-1\<close> for a value not in the array.\<close>

definition order :: "string list" where
  "order = [''read'', ''triage'', ''write'', ''maintain'', ''admin'']"

fun IndexOf :: "string list \<Rightarrow> string \<Rightarrow> int" where
  "IndexOf [] x = - 1"
| "IndexOf (y # ys) x = (if y = x then 0 else (let i = IndexOf ys x in if i < 0 then - 1 else i + 1))"

text \<open>
  A flag bundle is the \<^verbatim>\<open>permissions\<close> object of a collaborator, its properties in the
  order of the response. \<^verbatim>\<open>$permissions.$k\<close> is the flag named \<open>k\<close>, false when absent.
\<close>

definition flag :: "(string \<times> bool) list \<Rightarrow> string \<Rightarrow> bool" where
  "flag permissions k =
     (case find (\<lambda>(n, v). ps_eq n k) permissions of Some (n, v) \<Rightarrow> v | None \<Rightarrow> False)"

text \<open>
  The \<^verbatim>\<open>directPerm\<close> scan of step 8: it walks \<^verbatim>\<open>$permissionDisplay.Keys\<close> and overwrites
  \<^verbatim>\<open>$directPerm\<close> at every flag that is set, without a \<^verbatim>\<open>break\<close>. The order in which a
  hashtable enumerates its keys is not fixed by the script; it is the parameter \<open>Keys\<close>.
\<close>

definition directPerm :: "string list \<Rightarrow> (string \<times> bool) list \<Rightarrow> string" where
  "directPerm Keys permissions =
     fold (\<lambda>permKeyAPI directPerm.
             if flag permissions permKeyAPI then permissionDisplay permKeyAPI else directPerm)
          Keys ''''"

text \<open>
  The \<^verbatim>\<open>matchedPermission\<close> scan of \<^verbatim>\<open>Get-GitHubOrgRepoCollaborators.ps1\<close>: with
  \<^verbatim>\<open>-Permission ALL\<close> the name of the first set flag in the order of the response, otherwise
  the requested word when the flag of that name is set.
\<close>

definition matchedPermission :: "string \<Rightarrow> (string \<times> bool) list \<Rightarrow> string" where
  "matchedPermission Permission permissions =
     (if ps_eq Permission ''ALL''
      then (case find (\<lambda>(n, v). v) permissions of Some (n, v) \<Rightarrow> n | None \<Rightarrow> '''')
      else if flag permissions (ToLower Permission) then ToLower Permission else '''')"

section \<open>Rows of the PowerShell report\<close>

text \<open>
  A row of \<^verbatim>\<open>$collabsArray\<close>, \<^verbatim>\<open>$teamUserRepoPerms\<close> and \<^verbatim>\<open>$rowsByKey\<close>. The columns
  \<^verbatim>\<open>name\<close>, \<^verbatim>\<open>ssoEmail\<close> and \<^verbatim>\<open>verifiedEmail\<close> are filled by look-ups per login that never
  read or write the other columns; they are left out. \<open>orgpermission\<close> is a PowerShell
  value: a scalar string is a one-element list, and the member enumeration over several
  matching objects gives several.
\<close>

record row =
  orgRepo :: string
  login :: string
  permission :: string
  org :: string
  orgpermission :: "string list"
  viaTeam :: string

text \<open>Truth of a PowerShell value, and \<^verbatim>\<open>$v -eq ""\<close> taken as a condition.\<close>

definition ps_true :: "string list \<Rightarrow> bool" where
  "ps_true v = (case v of [] \<Rightarrow> False | [s] \<Rightarrow> s \<noteq> '''' | _ \<Rightarrow> True)"

definition ps_eq_empty :: "string list \<Rightarrow> bool" where
  "ps_eq_empty v =
     (case v of [] \<Rightarrow> False | [s] \<Rightarrow> ps_eq s '''' | _ \<Rightarrow> ps_true (filter (\<lambda>s. ps_eq s '''') v))"

text \<open>
  \<^verbatim>\<open>$member = $memberArray | Where-Object { $_.login -eq $login }\<close> and
  \<^verbatim>\<open>if ($member) { $member.role } else { "OUTSIDE COLLABORATOR" }\<close>, of steps 8 and 11.
\<close>

definition memberValue :: "member list \<Rightarrow> string \<Rightarrow> string list" where
  "memberValue memberArray l =
     (let member = filter (\<lambda>m. ps_eq (member_login m) l) memberArray
      in if member \<noteq> [] then map member_role member else [''OUTSIDE COLLABORATOR''])"

text \<open>
  Step 7. A team-repository grant carries the names of the flags that are set, a team
  member its team and login. \<^verbatim>\<open>@($trp.permission)\<close> of no flag at all is the array of
  one \<^verbatim>\<open>$null\<close>, whose displayed permission is \<^verbatim>\<open>$null\<close>.
\<close>

record team_repo_perm =
  trp_repo :: string
  trp_team :: string
  trp_permission :: "string list"

record team_member =
  tm_team :: string
  tm_login :: string

definition ps_array :: "string list \<Rightarrow> string option list" where
  "ps_array v = (if v = [] then [None] else map Some v)"

definition teamUserRepoPerms :: "string \<Rightarrow> team_repo_perm list \<Rightarrow> team_member list \<Rightarrow> row list" where
  "teamUserRepoPerms Org teamRepoPerms teamMembers =
     concat (map (\<lambda>trp.
       concat (map (\<lambda>member.
         map (\<lambda>perm.
               \<lparr>orgRepo = trp_repo trp,
                login = tm_login member,
                permission = (case perm of None \<Rightarrow> '''' | Some p \<Rightarrow> permissionDisplay p),
                org = Org,
                orgpermission = [''''],
                viaTeam = trp_team trp\<rparr>)
             (ps_array (trp_permission trp)))
         (filter (\<lambda>m. ps_eq (tm_team m) (trp_team trp)) teamMembers)))
       teamRepoPerms)"

text \<open>
  Step 8. A repository comes with the collaborators of the one page the script requests.
  A direct row is kept when \<^verbatim>\<open>-Permission\<close> is \<^verbatim>\<open>ALL\<close> and some flag is set, or when the
  displayed permission is the requested one. \<^verbatim>\<open>-Permission\<close> is a mandatory parameter,
  which PowerShell does not bind to the empty string.
\<close>

record collaborator =
  collab_login :: string
  collab_permissions :: "(string \<times> bool) list"

definition collab_rows ::
  "string \<Rightarrow> string list \<Rightarrow> string \<Rightarrow> member list \<Rightarrow> string \<Rightarrow> collaborator \<Rightarrow> row list" where
  "collab_rows Permission Keys Org memberArray repo collab =
     (let permKey = ToLower Permission;
          dp = directPerm Keys (collab_permissions collab)
      in if (ps_eq Permission ''ALL'' \<and> dp \<noteq> '''') \<or> ps_eq permKey dp
         then [\<lparr>orgRepo = repo,
                login = collab_login collab,
                permission = dp,
                org = Org,
                orgpermission = memberValue memberArray (collab_login collab),
                viaTeam = ''''\<rparr>]
         else [])"

definition collabsArray ::
  "string \<Rightarrow> string list \<Rightarrow> string \<Rightarrow> member list \<Rightarrow> (string \<times> collaborator list) list \<Rightarrow> row list" where
  "collabsArray Permission Keys Org memberArray repos =
     concat (map (\<lambda>(repo, collabs).
       concat (map (collab_rows Permission Keys Org memberArray repo) collabs)) repos)"

text \<open>
  Step 9. \<^verbatim>\<open>$rowsByKey\<close> is a hashtable from \<^verbatim>\<open>"repo:login"\<close> to a row; its keys ignore case.
  The direct rows are stored first, a later one replacing an earlier one of the same key.
\<close>

definition key_of :: "row \<Rightarrow> string" where
  "key_of r = ToLower (orgRepo r @ '':'' @ login r)"

definition seed :: "row list \<Rightarrow> (string \<rightharpoonup> row)" where
  "seed cs = fold (\<lambda>c rowsByKey. rowsByKey(key_of c \<mapsto> c)) cs Map.empty"

definition merge_team_row :: "(string \<rightharpoonup> row) \<Rightarrow> row \<Rightarrow> (string \<rightharpoonup> row)" where
  "merge_team_row rowsByKey t =
     (let key = key_of t
      in case rowsByKey key of
           Some current \<Rightarrow>
             (let curIdx = IndexOf order (permission current);
                  teamIdx = IndexOf order (permission t)
              in if teamIdx > curIdx then rowsByKey(key \<mapsto> t)
                 else if teamIdx = curIdx \<and> \<not> IsNullOrWhiteSpace (viaTeam t)
                 then rowsByKey(key \<mapsto> current\<lparr>viaTeam := viaTeam current @ '','' @ viaTeam t\<rparr>)
                 else rowsByKey)
         | None \<Rightarrow> rowsByKey(key \<mapsto> t))"

definition rowsByKey :: "row list \<Rightarrow> row list \<Rightarrow> (string \<rightharpoonup> row)" where
  "rowsByKey cs ts = fold (\<lambda>t m. merge_team_row m t) ts (seed cs)"

text \<open>Step 11, the organization role: a row whose \<^verbatim>\<open>orgpermission\<close> is empty is looked up.\<close>

definition fill_orgpermission :: "member list \<Rightarrow> row \<Rightarrow> row" where
  "fill_orgpermission memberArray r =
     (if \<not> ps_true (orgpermission r) \<or> ps_eq_empty (orgpermission r)
      then r\<lparr>orgpermission := memberValue memberArray (login r)\<rparr>
      else r)"

text \<open>Step 12: unless \<^verbatim>\<open>-Permission\<close> is \<^verbatim>\<open>ALL\<close>, only the rows of that permission stay.\<close>

definition filter_rows :: "string \<Rightarrow> (string \<rightharpoonup> row) \<Rightarrow> (string \<rightharpoonup> row)" where
  "filter_rows Permission allRows =
     (if \<not> ps_eq Permission ''ALL''
      then (\<lambda>k. case allRows k of
                  Some r \<Rightarrow> if ps_eq (permission r) (ToLower Permission) then Some r else None
                | None \<Rightarrow> None)
      else allRows)"

text \<open>Steps 7 to 12 together: the rows handed to the export, by key.\<close>

definition report ::
  "string \<Rightarrow> string list \<Rightarrow> string \<Rightarrow> member list \<Rightarrow> (string \<times> collaborator list) list \<Rightarrow>
   team_repo_perm list \<Rightarrow> team_member list \<Rightarrow> (string \<rightharpoonup> row)" where
  "report Permission Keys Org memberArray repos teamRepoPerms teamMembers =
     filter_rows Permission
       (map_option (fill_orgpermission memberArray) \<circ>
          rowsByKey (collabsArray Permission Keys Org memberArray repos)
                    (teamUserRepoPerms Org teamRepoPerms teamMembers))"

section \<open>Rows of the JavaScript report\<close>


record collab =
  c_orgRepo :: string
  c_login :: string
  c_name :: string
  c_verifiedEmail :: string
  c_permission :: string
  c_visibility :: string
  c_org :: string


text \<open>\<^verbatim>\<open>mergeArrays\<close>: one \<^verbatim>\<open>ssoCollab\<close> per entry of \<^verbatim>\<open>collabsArray\<close>, in order.\<close>

record ssoCollab =
  sc_orgRepo :: string
  sc_login :: string
  sc_name :: string
  sc_ssoEmailValue :: string
  sc_verifiedEmail :: string
  sc_permission :: string
  sc_org :: string
  sc_memberValue :: string

definition mergeArrays :: "collab list \<Rightarrow> sso_email list \<Rightarrow> member list \<Rightarrow> ssoCollab list" where
  "mergeArrays collabs emailArray memberArray =
     map (\<lambda>collab.
            \<lparr>sc_orgRepo = c_orgRepo collab,
             sc_login = c_login collab,
             sc_name = c_name collab,
             sc_ssoEmailValue =
               (case find (\<lambda>email. sso_login email = c_login collab) emailArray of
                  Some email \<Rightarrow> ssoEmail email | None \<Rightarrow> ''''),
             sc_verifiedEmail = c_verifiedEmail collab,
             sc_permission = c_permission collab,
             sc_org = c_org collab,
             sc_memberValue =
               (case find (\<lambda>member. member_login member = c_login collab) memberArray of
                  Some member \<Rightarrow> member_role member | None \<Rightarrow> ''OUTSIDE COLLABORATOR'')\<rparr>)
         collabs"

text \<open>The position of a row's permission in \<^verbatim>\<open>$order\<close>: \<^verbatim>\<open>$curIdx\<close> and \<^verbatim>\<open>$teamIdx\<close> of step 9.\<close>

definition level :: "row \<Rightarrow> int" where
  "level r = IndexOf order (permission r)"

section \<open>Properties of the retry loops\<close>

lemma retryWithBackoff_loop_skip:
  assumes "i \<le> k" "k < retries" "\<And>j. i \<le> j \<Longrightarrow> j < k \<Longrightarrow> secondary (fn j)"
  shows "retryWithBackoff_loop fn retries delay i slept =
         retryWithBackoff_loop fn retries delay k (slept @ map (\<lambda>j. delay * 2 ^ j) [i..<k])"
  using assms(1,3)
proof (induction k rule: dec_induct)
  case base
  then show ?case by simp
next
  case (step n)
  have "secondary (fn n)" using step by simp
  then obtain m where m: "fn n = Rejected m" "str_includes m ''secondary rate limit''"
    by (auto simp: secondary_def split: outcome.splits)
  have "retryWithBackoff_loop fn retries delay n (slept @ map (\<lambda>j. delay * 2 ^ j) [i..<n]) =
        retryWithBackoff_loop fn retries delay (Suc n) (slept @ map (\<lambda>j. delay * 2 ^ j) [i..<Suc n])"
  proof -
    have "n < retries" "n \<noteq> retries - 1" using step.hyps assms(2) by arith+
    then show ?thesis using m \<open>i \<le> n\<close>
      by (subst retryWithBackoff_loop.simps[of _ _ _ n]) simp
  qed
  with step show ?case by simp
qed

lemma Invoke_GitHubREST_loop_skip:
  assumes "i \<le> k" "k < retries" "\<And>j. i \<le> j \<Longrightarrow> j < k \<Longrightarrow> failed (fn j)"
  shows "Invoke_GitHubREST_loop fn retries delay i slept =
         Invoke_GitHubREST_loop fn retries delay k (slept @ map (\<lambda>j. delay * 2 ^ j) [i..<k])"
  using assms(1,3)
proof (induction k rule: dec_induct)
  case base
  then show ?case by simp
next
  case (step n)
  have "failed (fn n)" using step by simp
  then obtain m where m: "fn n = Rejected m"
    by (auto simp: failed_def split: outcome.splits)
  have "Invoke_GitHubREST_loop fn retries delay n (slept @ map (\<lambda>j. delay * 2 ^ j) [i..<n]) =
        Invoke_GitHubREST_loop fn retries delay (Suc n) (slept @ map (\<lambda>j. delay * 2 ^ j) [i..<Suc n])"
  proof -
    have "n < retries" "n \<noteq> retries - 1" using step.hyps assms(2) by arith+
    then show ?thesis using m \<open>i \<le> n\<close>
      by (subst Invoke_GitHubREST_loop.simps[of _ _ _ n]) simp
  qed
  with step show ?case by simp
qed

lemma retryWithBackoff_run:
  assumes "k < retries" "\<forall>j<k. secondary (fn j)"
  shows "retryWithBackoff fn retries delay =
         (case fn k of
            Resolved v \<Rightarrow> (Returned v, map (\<lambda>j. delay * 2 ^ j) [0..<k])
          | Rejected m \<Rightarrow>
              if k = retries - 1 \<or> \<not> str_includes m ''secondary rate limit''
              then (Threw m, map (\<lambda>j. delay * 2 ^ j) [0..<k])
              else retryWithBackoff_loop fn retries delay (k + 1) (map (\<lambda>j. delay * 2 ^ j) [0..<k] @ [delay * 2 ^ k]))"
proof -
  have "retryWithBackoff fn retries delay =
        retryWithBackoff_loop fn retries delay k ([] @ map (\<lambda>j. delay * 2 ^ j) [0..<k])"
    unfolding retryWithBackoff_def using assms
    by (intro retryWithBackoff_loop_skip) auto
  then show ?thesis using assms(1)
    by (subst (asm) retryWithBackoff_loop.simps[of _ _ _ k]) (simp split: outcome.splits)
qed

lemma Invoke_GitHubREST_run:
  assumes "k < retries" "\<forall>j<k. failed (fn j)"
  shows "Invoke_GitHubREST fn retries delay =
         (case fn k of
            Resolved v \<Rightarrow> (Returned v, map (\<lambda>j. delay * 2 ^ j) [0..<k])
          | Rejected m \<Rightarrow>
              if k = retries - 1
              then (Threw m, map (\<lambda>j. delay * 2 ^ j) [0..<k])
              else Invoke_GitHubREST_loop fn retries delay (k + 1) (map (\<lambda>j. delay * 2 ^ j) [0..<k] @ [delay * 2 ^ k]))"
proof -
  have "Invoke_GitHubREST fn retries delay =
        Invoke_GitHubREST_loop fn retries delay k ([] @ map (\<lambda>j. delay * 2 ^ j) [0..<k])"
    unfolding Invoke_GitHubREST_def using assms
    by (intro Invoke_GitHubREST_loop_skip) auto
  then show ?thesis using assms(1)
    by (subst (asm) Invoke_GitHubREST_loop.simps[of _ _ _ k]) (simp split: outcome.splits)
qed





text \<open>
  C6, as stated, fails on index.js: a transient network error on the first attempt is thrown
  at once, with no delay and no second attempt, while the same stub failing with a
  secondary-rate-limit error is retried after 2000 ms.
\<close>

theorem transient_error_counterexample:
  "retryWithBackoff (\<lambda>i. if i = 0 then Rejected ''connect ETIMEDOUT'' else Resolved (1::nat)) 5 2000
     = (Threw ''connect ETIMEDOUT'', [])
   \<and> retryWithBackoff (\<lambda>i. if i = 0 then Rejected ''secondary rate limit'' else Resolved (1::nat)) 5 2000
     = (Returned 1, [2000])"
  by (simp add: retryWithBackoff_def retryWithBackoff_loop.simps)

text \<open>
  C6, amended: \<^verbatim>\<open>retryWithBackoff\<close> of index.js retries only an error whose message contains
  \<^verbatim>\<open>secondary rate limit\<close>; any other error, a transient network error included, is thrown
  on the attempt where it occurs. \<^verbatim>\<open>Invoke-GitHubREST\<close> of the PowerShell script retries an
  error of any kind with the same bounded exponential backoff. In both, a failure of any
  kind on the final attempt \<open>n - 1\<close> propagates to the caller.
\<close>

theorem retry_error_kinds:
  assumes "k < n" and "fn k = Rejected m"
  shows "((\<forall>j<k. secondary (fn j)) \<and> \<not> str_includes m ''secondary rate limit'' \<longrightarrow>
            retryWithBackoff fn n d = (Threw m, map (\<lambda>i. d * 2 ^ i) [0..<k]))
       \<and> ((\<forall>j<k. failed (fn j)) \<and> k + 1 < n \<and> fn (k + 1) = Resolved v \<longrightarrow>
            Invoke_GitHubREST fn n d = (Returned v, map (\<lambda>i. d * 2 ^ i) [0..<k + 1]))
       \<and> ((\<forall>j<k. secondary (fn j)) \<and> k = n - 1 \<longrightarrow>
            retryWithBackoff fn n d = (Threw m, map (\<lambda>i. d * 2 ^ i) [0..<k]))
       \<and> ((\<forall>j<k. failed (fn j)) \<and> k = n - 1 \<longrightarrow>
            Invoke_GitHubREST fn n d = (Threw m, map (\<lambda>i. d * 2 ^ i) [0..<k]))"
proof (intro conjI impI)
  assume a: "(\<forall>j<k. secondary (fn j)) \<and> \<not> str_includes m ''secondary rate limit''"
  then show "retryWithBackoff fn n d = (Threw m, map (\<lambda>i. d * 2 ^ i) [0..<k])"
    using retryWithBackoff_run [OF assms(1), of fn d] assms(2) by simp
next
  assume a: "(\<forall>j<k. failed (fn j)) \<and> k + 1 < n \<and> fn (k + 1) = Resolved v"
  have "\<forall>j<k + 1. failed (fn j)"
  proof (intro allI impI)
    fix j assume "j < k + 1"
    then have "j < k \<or> j = k" by arith
    then show "failed (fn j)" using a assms(2) by (auto simp: failed_def)
  qed
  with a show "Invoke_GitHubREST fn n d = (Returned v, map (\<lambda>i. d * 2 ^ i) [0..<k + 1])"
    using Invoke_GitHubREST_run [of "k + 1" n fn d] by simp
next
  assume a: "(\<forall>j<k. secondary (fn j)) \<and> k = n - 1"
  then show "retryWithBackoff fn n d = (Threw m, map (\<lambda>i. d * 2 ^ i) [0..<k])"
    using retryWithBackoff_run [OF assms(1), of fn d] assms(2) by simp
next
  assume a: "(\<forall>j<k. failed (fn j)) \<and> k = n - 1"
  then show "Invoke_GitHubREST fn n d = (Threw m, map (\<lambda>i. d * 2 ^ i) [0..<k])"
    using Invoke_GitHubREST_run [OF assms(1), of fn d] assms(2) by simp
qed

theorem retry_error_kinds_witness:
  "retryWithBackoff (\<lambda>i. if i = 0 then Rejected ''secondary rate limit'' else Rejected ''socket hang up'') 5 2000
     = (Threw ''socket hang up'' :: nat completion, [2000])
   \<and> Invoke_GitHubREST (\<lambda>i. if i < 2 then Rejected ''socket hang up'' else Resolved (3::nat)) 5 2000
     = (Returned 3, [2000, 4000])
   \<and> Invoke_GitHubREST (\<lambda>i. Rejected ''socket hang up'') 5 2000
     = (Threw ''socket hang up'' :: nat completion, [2000, 4000, 8000, 16000])"
proof -
  let ?f = "\<lambda>i::nat. if i = 0 then Rejected ''secondary rate limit''
                       else (Rejected ''socket hang up'' :: nat outcome)"
  let ?g = "\<lambda>i::nat. if i < 2 then Rejected ''socket hang up'' else Resolved (3::nat)"
  let ?h = "\<lambda>i::nat. (Rejected ''socket hang up'' :: nat outcome)"
  have f: "\<forall>j<1. secondary (?f j)" by (simp add: secondary_def)
  have g: "\<forall>j<1. failed (?g j)" by (simp add: failed_def)
  have h: "\<forall>j<4. failed (?h j)" by (simp add: failed_def)
  have "(1::nat) < 5" "(4::nat) < 5" by simp_all
  from retry_error_kinds [OF this(1), of ?f "''socket hang up''" 2000]
       retry_error_kinds [OF this(1), of ?g "''socket hang up''" 2000 3]
       retry_error_kinds [OF this(2), of ?h "''socket hang up''" 2000]
       f g h
  show ?thesis by (simp add: upt_rec)
qed

section \<open>Properties of the pagination loops\<close>



lemma fold_cursor_body:
  "fold (\<lambda>item (cursor, s). (X, body item s)) xs (c, s) =
     ((if xs = [] then c else X), fold body xs s)"
  by (induction xs arbitrary: c s) auto

lemma for_of_page_eq:
  "for_of_page body d (c, s) =
     ((if edges d = [] then c else if hasNextPage d then endCursor d else None),
      fold body (edges d) s)"
  unfolding for_of_page_def by (simp add: fold_cursor_body)

lemma cursor_loop_step:
  "cursor_loop body fetch c s =
     (if hasNextPage (fetch c)
      then cursor_loop body fetch (if edges (fetch c) = [] then c else endCursor (fetch c))
             (fold body (edges (fetch c)) s)
      else Some (fold body (edges (fetch c)) s))"
  by (subst cursor_loop.simps) (simp add: for_of_page_eq Let_def)

lemma cursor_loop_complete:
  assumes "\<forall>j. i \<le> j \<and> j + 1 < length ps \<longrightarrow> ps ! j \<noteq> []" and "page_index c = i"
  shows "cursor_loop body (serve ps) c s = Some (fold body (concat (drop i ps)) s)"
  using assms
proof (induction "length ps - i" arbitrary: i c s rule: less_induct)
  case less
  have sv: "serve ps c = \<lparr>edges = (if i < length ps then ps ! i else []),
          hasNextPage = (i + 1 < length ps),
          endCursor = (if i < length ps then Some (i + 1) else None)\<rparr>"
    using less.prems(2) by (simp add: serve_def Let_def)
  show ?case
  proof (cases "i + 1 < length ps")
    case True
    then have ne: "ps ! i \<noteq> []" using less.prems(1) by simp
    have "length ps - (i + 1) < length ps - i" using True by arith
    moreover have "\<forall>j. i + 1 \<le> j \<and> j + 1 < length ps \<longrightarrow> ps ! j \<noteq> []"
      using less.prems(1) by simp
    moreover have "page_index (Some (i + 1)) = i + 1" by (simp add: page_index_def)
    ultimately have IH: "cursor_loop body (serve ps) (Some (i + 1)) (fold body (ps ! i) s) =
        Some (fold body (concat (drop (i + 1) ps)) (fold body (ps ! i) s))"
      by (rule less.hyps)
    have "drop i ps = ps ! i # drop (i + 1) ps" using True by (simp add: Cons_nth_drop_Suc)
    then have cc: "fold body (concat (drop i ps)) s = fold body (concat (drop (i + 1) ps)) (fold body (ps ! i) s)"
      by simp
    show ?thesis
      by (subst cursor_loop_step) (use True ne IH in \<open>simp add: sv cc\<close>)
  next
    case False
    have "concat (drop i ps) = (if i < length ps then ps ! i else [])"
    proof (cases "i < length ps")
      case True
      then have "drop i ps = [ps ! i]" using False
        by (metis Cons_nth_drop_Suc Suc_eq_plus1 drop_all not_less)
      then show ?thesis using True by simp
    next
      case False
      then show ?thesis by simp
    qed
    then show ?thesis
      by (subst cursor_loop_step) (use False in \<open>simp add: sv\<close>)
  qed
qed


lemma nonfinal_pages_nth:
  "list_all (\<lambda>p. p \<noteq> []) (butlast ps) = (\<forall>j. j + 1 < length ps \<longrightarrow> ps ! j \<noteq> [])"
proof -
  have "list_all (\<lambda>p. p \<noteq> []) (butlast ps) = (\<forall>j < length ps - 1. butlast ps ! j \<noteq> [])"
    by (simp add: list_all_length)
  also have "\<dots> = (\<forall>j. j + 1 < length ps \<longrightarrow> ps ! j \<noteq> [])"
    by (auto simp: nth_butlast less_diff_conv)
  finally show ?thesis .
qed


lemma cursor_loop_assembles:
  assumes "list_all (\<lambda>p. p \<noteq> []) (butlast ps)"
  shows "cursor_loop body (serve ps) None s = Some (fold body (concat ps) s)"
proof -
  from assms have "\<forall>j. 0 \<le> j \<and> j + 1 < length ps \<longrightarrow> ps ! j \<noteq> []"
    by (simp add: nonfinal_pages_nth)
  from cursor_loop_complete [OF this, of None body s]
  show ?thesis by (simp add: page_index_def)
qed








lemma ssoEmail_body_fold:
  "fold ssoEmail_body es acc =
     acc @ map (\<lambda>e. \<lparr>sso_login = the (user e), ssoEmail = samlIdentity_nameId e\<rparr>)
             (filter (\<lambda>e. user e \<noteq> None) es)"
  by (induction es arbitrary: acc) (auto simp: ssoEmail_body_def split: option.splits)

lemma Get_GitHubOrgSSOEmails_edges_eq:
  "Get_GitHubOrgSSOEmails_edges es acc =
     acc @ map (\<lambda>e. \<lparr>sso_login = the (user e), ssoEmail = samlIdentity_nameId e\<rparr>)
             (filter (\<lambda>e. user e \<noteq> None) es)"
  unfolding Get_GitHubOrgSSOEmails_edges_def
  by (induction es arbitrary: acc) (auto split: option.splits)

text \<open>
  C10: every entry of the assembled SSO array stems from an identity with a linked user
  account and carries that user's login; an identity without one is skipped, the
  identities after it are still processed, and the result is the same as if it had not
  been there. This holds for the loop of index.js as for the PowerShell edge loop, and
  for the whole cursor loop over a page sequence it returns from.
\<close>

theorem sso_identity_without_user_skipped:
  "(\<forall>e \<in> set (fold ssoEmail_body es []).
       \<exists>email \<in> set es. user email = Some (sso_login e) \<and> ssoEmail e = samlIdentity_nameId email)
   \<and> (\<forall>e \<in> set (Get_GitHubOrgSSOEmails_edges es []).
       \<exists>email \<in> set es. user email = Some (sso_login e) \<and> ssoEmail e = samlIdentity_nameId email)
   \<and> (user email = None \<longrightarrow>
        fold ssoEmail_body (xs @ email # ys) acc = fold ssoEmail_body (xs @ ys) acc \<and>
        Get_GitHubOrgSSOEmails_edges (xs @ email # ys) acc = Get_GitHubOrgSSOEmails_edges (xs @ ys) acc)
   \<and> (list_all (\<lambda>p. p \<noteq> []) (butlast identities) \<longrightarrow>
        ssoEmail_graphql (serve identities) [] = Some (fold ssoEmail_body (concat identities) []))"
proof (intro conjI impI)
  show "\<forall>e \<in> set (fold ssoEmail_body es []).
       \<exists>email \<in> set es. user email = Some (sso_login e) \<and> ssoEmail e = samlIdentity_nameId email"
    by (auto simp: ssoEmail_body_fold)
  show "\<forall>e \<in> set (Get_GitHubOrgSSOEmails_edges es []).
       \<exists>email \<in> set es. user email = Some (sso_login e) \<and> ssoEmail e = samlIdentity_nameId email"
    by (auto simp: Get_GitHubOrgSSOEmails_edges_eq)
next
  assume "user email = None"
  then show "fold ssoEmail_body (xs @ email # ys) acc = fold ssoEmail_body (xs @ ys) acc"
    and "Get_GitHubOrgSSOEmails_edges (xs @ email # ys) acc = Get_GitHubOrgSSOEmails_edges (xs @ ys) acc"
    by (simp_all add: ssoEmail_body_fold Get_GitHubOrgSSOEmails_edges_eq ssoEmail_body_def)
next
  assume "list_all (\<lambda>p. p \<noteq> []) (butlast identities)"
  from cursor_loop_assembles [OF this]
  show "ssoEmail_graphql (serve identities) [] = Some (fold ssoEmail_body (concat identities) [])"
    by (simp add: ssoEmail_graphql_def)
qed

theorem sso_identity_without_user_skipped_witness:
  "ssoEmail_graphql
     (serve [[\<lparr>samlIdentity_nameId = ''ghost@example.com'', user = None\<rparr>,
              \<lparr>samlIdentity_nameId = ''ann@example.com'', user = Some ''ann''\<rparr>]]) []
   = Some [\<lparr>sso_login = ''ann'', ssoEmail = ''ann@example.com''\<rparr>]
   \<and> Get_GitHubOrgSSOEmails_edges
       [\<lparr>samlIdentity_nameId = ''ghost@example.com'', user = None\<rparr>,
        \<lparr>samlIdentity_nameId = ''ann@example.com'', user = Some ''ann''\<rparr>] []
     = Get_GitHubOrgSSOEmails_edges
       [\<lparr>samlIdentity_nameId = ''ann@example.com'', user = Some ''ann''\<rparr>] []"
  using sso_identity_without_user_skipped
    [of "[]" "\<lparr>samlIdentity_nameId = ''ghost@example.com'', user = None\<rparr>" "[]"
        "[\<lparr>samlIdentity_nameId = ''ann@example.com'', user = Some ''ann''\<rparr>]" "[]"
        "[[\<lparr>samlIdentity_nameId = ''ghost@example.com'', user = None\<rparr>,
           \<lparr>samlIdentity_nameId = ''ann@example.com'', user = Some ''ann''\<rparr>]]"]
  by (simp add: ssoEmail_body_def)

section \<open>Properties of the permission scans\<close>

text \<open>
  C2 fails on both scans. For the bundle \<open>admin\<close>, \<open>push\<close>, \<open>pull\<close> all set, the
  \<^verbatim>\<open>directPerm\<close> scan returns the level of whichever set flag the hashtable enumerates
  last, \<open>read\<close> when that is \<open>pull\<close> and \<open>admin\<close> when that is \<open>admin\<close>; the
  \<^verbatim>\<open>matchedPermission\<close> scan returns the name of whichever set flag the response lists
  first, \<open>pull\<close> or \<open>admin\<close>. Neither is the highest level among the set flags in
  every order.
\<close>

theorem flag_scan_depends_on_order:
  "directPerm [''admin'', ''maintain'', ''push'', ''triage'', ''pull'']
     [(''pull'', True), (''push'', True), (''admin'', True)] = ''read''
   \<and> directPerm [''pull'', ''triage'', ''push'', ''maintain'', ''admin'']
     [(''pull'', True), (''push'', True), (''admin'', True)] = ''admin''
   \<and> matchedPermission ''ALL'' [(''pull'', True), (''push'', True), (''admin'', True)] = ''pull''
   \<and> matchedPermission ''ALL'' [(''admin'', True), (''push'', True), (''pull'', True)] = ''admin''"
  by (simp add: directPerm_def matchedPermission_def flag_def ps_eq_def ToLower_def to_lower_def
      permissionDisplay_def)

section \<open>Properties of the merge\<close>

lemma IndexOf_ge: "- 1 \<le> IndexOf xs x"
  by (induction xs) (auto simp: Let_def)



lemma merge_team_row_other: "key_of t \<noteq> k \<Longrightarrow> merge_team_row m t k = m k"
  by (simp add: merge_team_row_def Let_def split: option.splits)

lemma merge_team_row_absent: "m (key_of t) = None \<Longrightarrow> merge_team_row m t (key_of t) = Some t"
  by (simp add: merge_team_row_def Let_def)

lemma merge_team_row_present:
  assumes "m (key_of t) = Some c"
  shows "merge_team_row m t (key_of t) =
           (if level c < level t then Some t
            else if level t = level c \<and> \<not> IsNullOrWhiteSpace (viaTeam t)
            then Some (c\<lparr>viaTeam := viaTeam c @ '','' @ viaTeam t\<rparr>)
            else Some c)"
  using assms by (simp add: merge_team_row_def Let_def level_def)

text \<open>
  C4: a team row that ties with the row stored under its key leaves that row in place,
  permission and all other columns unchanged, and appends a comma and its team slug to
  \<^verbatim>\<open>viaTeam\<close>; over a run of tying team rows every slug is recorded, in order. A row of
  step 7 carries the slug of its team, which is never blank.
\<close>

theorem tie_appends_team_slug:
  assumes "m k = Some current"
    and "\<forall>t \<in> set ts. key_of t = k \<and> permission t = permission current
                      \<and> \<not> IsNullOrWhiteSpace (viaTeam t)"
  shows "fold (\<lambda>t m. merge_team_row m t) ts m =
         m(k \<mapsto> current\<lparr>viaTeam := viaTeam current @ concat (map (\<lambda>t. '','' @ viaTeam t) ts)\<rparr>)"
  using assms
proof (induction ts arbitrary: m current)
  case Nil
  then show ?case by (simp add: map_upd_triv)
next
  case (Cons t ts)
  let ?c = "current\<lparr>viaTeam := viaTeam current @ '','' @ viaTeam t\<rparr>"
  have t: "key_of t = k" "permission t = permission current" "\<not> IsNullOrWhiteSpace (viaTeam t)"
    using Cons.prems(2) by simp_all
  have step: "merge_team_row m t = m(k \<mapsto> ?c)"
    using Cons.prems(1) t by (simp add: merge_team_row_def Let_def)
  have "fold (\<lambda>t m. merge_team_row m t) ts (m(k \<mapsto> ?c)) =
        (m(k \<mapsto> ?c))(k \<mapsto> ?c\<lparr>viaTeam := viaTeam ?c @ concat (map (\<lambda>t. '','' @ viaTeam t) ts)\<rparr>)"
    using Cons.prems(2) by (intro Cons.IH) simp_all
  then show ?case by (simp add: step)
qed

theorem tie_appends_team_slug_witness:
  "fold (\<lambda>t m. merge_team_row m t)
     [\<lparr>orgRepo = ''api'', login = ''ann'', permission = ''write'', org = ''acme'',
       orgpermission = [''''], viaTeam = ''b-team''\<rparr>]
     [''api:ann'' \<mapsto> \<lparr>orgRepo = ''api'', login = ''ann'', permission = ''write'', org = ''acme'',
                      orgpermission = [''MEMBER''], viaTeam = ''''\<rparr>]
   = [''api:ann'' \<mapsto> \<lparr>orgRepo = ''api'', login = ''ann'', permission = ''write'', org = ''acme'',
                      orgpermission = [''MEMBER''], viaTeam = '',b-team''\<rparr>]"
proof -
  let ?d = "\<lparr>orgRepo = ''api'', login = ''ann'', permission = ''write'', org = ''acme'',
             orgpermission = [''MEMBER''], viaTeam = ''''\<rparr>"
  let ?t = "\<lparr>orgRepo = ''api'', login = ''ann'', permission = ''write'', org = ''acme'',
             orgpermission = [''''], viaTeam = ''b-team''\<rparr>"
  have 1: "[''api:ann'' \<mapsto> ?d] ''api:ann'' = Some ?d" by simp
  have 2: "\<forall>t \<in> set [?t]. key_of t = ''api:ann'' \<and> permission t = permission ?d
                      \<and> \<not> IsNullOrWhiteSpace (viaTeam t)"
    by (simp add: key_of_def ToLower_def to_lower_def IsNullOrWhiteSpace_def)
  from tie_appends_team_slug [of "[''api:ann'' \<mapsto> ?d]" "''api:ann''" ?d "[?t]", OF 1 2]
  show ?thesis by simp
qed

lemma seed_snoc: "seed (cs @ [c]) = (seed cs)(key_of c \<mapsto> c)"
  by (simp add: seed_def)

lemma seed_Some: "seed cs k = Some c \<Longrightarrow> c \<in> set cs \<and> key_of c = k"
  by (induction cs rule: rev_induct) (auto simp: seed_snoc seed_def split: if_splits)

lemma seed_None: "(seed cs k = None) = (\<forall>c \<in> set cs. key_of c \<noteq> k)"
  by (induction cs rule: rev_induct) (auto simp: seed_snoc seed_def)

lemma seed_distinct:
  "distinct (map key_of cs) \<Longrightarrow> c \<in> set cs \<Longrightarrow> seed cs (key_of c) = Some c"
proof (induction cs rule: rev_induct)
  case Nil
  then show ?case by simp
next
  case (snoc x xs)
  then show ?case by (auto simp: seed_snoc) (metis image_eqI)
qed

text \<open>The grants that reach the row of key \<open>k\<close>: the stored direct row and the team rows.\<close>

lemma merge_invariant:
  assumes "\<And>k c. m0 k = Some c \<Longrightarrow> key_of c = k"
  shows "case fold (\<lambda>t m. merge_team_row m t) ts m0 k of
           None \<Rightarrow> m0 k = None \<and> (\<forall>t \<in> set ts. key_of t \<noteq> k)
         | Some r \<Rightarrow>
             key_of r = k
             \<and> level r = Max (level ` (set_option (m0 k) \<union> {t \<in> set ts. key_of t = k}))
             \<and> (\<exists>g \<in> set_option (m0 k) \<union> {t \<in> set ts. key_of t = k}. r = g\<lparr>viaTeam := viaTeam r\<rparr>)"
proof (induction ts arbitrary: k rule: rev_induct)
  case Nil
  show ?case using assms by (cases "m0 k") auto
next
  case (snoc t ts)
  let ?M = "fold (\<lambda>t m. merge_team_row m t) ts m0"
  let ?G = "\<lambda>us. set_option (m0 k) \<union> {u \<in> set us. key_of u = k}"
  have fold_snoc: "fold (\<lambda>t m. merge_team_row m t) (ts @ [t]) m0 = merge_team_row ?M t" by simp
  show ?case
  proof (cases "key_of t = k")
    case False
    then have same: "?G (ts @ [t]) = ?G ts" by auto
    have "merge_team_row ?M t k = ?M k" using False by (rule merge_team_row_other)
    with snoc.IH [of k] False show ?thesis
      unfolding fold_snoc same by (auto split: option.splits)
  next
    case True
    have G: "?G (ts @ [t]) = insert t (?G ts)" using True by auto
    have fin: "finite (level ` ?G ts)" by (cases "m0 k") auto
    show ?thesis
    proof (cases "?M k")
      case None
      with snoc.IH [of k] have e: "?G ts = {}" by auto
      have "merge_team_row ?M t k = Some t"
        using merge_team_row_absent [of ?M t] None True by simp
      then show ?thesis unfolding fold_snoc G e using True by simp
    next
      case (Some c)
      with snoc.IH [of k]
      have c: "key_of c = k" "level c = Max (level ` ?G ts)" "\<exists>g \<in> ?G ts. c = g\<lparr>viaTeam := viaTeam c\<rparr>"
        by auto
      then have ne: "level ` ?G ts \<noteq> {}" by auto
      have "Max (insert (level t) (level ` ?G ts)) = max (level t) (Max (level ` ?G ts))"
        using fin ne by (rule Max_insert)
      then have mx: "Max (level ` ?G (ts @ [t])) = max (level t) (level c)"
        unfolding G c(2) by simp
      have res: "merge_team_row ?M t k =
           (if level c < level t then Some t
            else if level t = level c \<and> \<not> IsNullOrWhiteSpace (viaTeam t)
            then Some (c\<lparr>viaTeam := viaTeam c @ '','' @ viaTeam t\<rparr>)
            else Some c)"
        using merge_team_row_present [of ?M t c] Some True by simp
      from c(3) obtain g where g: "g \<in> ?G ts" "c = g\<lparr>viaTeam := viaTeam c\<rparr>" by blast
      have final: "case fold (\<lambda>t m. merge_team_row m t) (ts @ [t]) m0 k of
           None \<Rightarrow> m0 k = None \<and> (\<forall>t \<in> set (ts @ [t]). key_of t \<noteq> k)
         | Some r \<Rightarrow>
             key_of r = k
             \<and> level r = Max (level ` ?G (ts @ [t]))
             \<and> (\<exists>g \<in> ?G (ts @ [t]). r = g\<lparr>viaTeam := viaTeam r\<rparr>)"
        if "merge_team_row ?M t k = Some R" "key_of R = k" "level R = max (level t) (level c)"
           "\<exists>g \<in> ?G (ts @ [t]). R = g\<lparr>viaTeam := viaTeam R\<rparr>" for R
        unfolding fold_snoc that(1) option.case mx using that(2,3,4) by (intro conjI)
      show ?thesis
      proof (cases "level c < level t")
        case lt: True
        have "t \<in> ?G (ts @ [t])" using True by simp
        moreover have "t = t\<lparr>viaTeam := viaTeam t\<rparr>" by simp
        ultimately have "\<exists>g \<in> ?G (ts @ [t]). t = g\<lparr>viaTeam := viaTeam t\<rparr>" by blast
        moreover have "merge_team_row ?M t k = Some t" using res lt by simp
        moreover have "level t = max (level t) (level c)" using lt by simp
        ultimately show ?thesis using True by (intro final)
      next
        case ge: False
        have gG: "g \<in> ?G (ts @ [t])" using g(1) unfolding G by simp
        show ?thesis
        proof (cases "level t = level c \<and> \<not> IsNullOrWhiteSpace (viaTeam t)")
          case tie: True
          let ?c' = "c\<lparr>viaTeam := viaTeam c @ '','' @ viaTeam t\<rparr>"
          have "key_of ?c' = k" using c(1) by (simp add: key_of_def)
          moreover have "level ?c' = max (level t) (level c)" using tie by (simp add: level_def)
          moreover have "?c' = g\<lparr>viaTeam := viaTeam ?c'\<rparr>"
            by (subst g(2)) simp
          then have "\<exists>g \<in> ?G (ts @ [t]). ?c' = g\<lparr>viaTeam := viaTeam ?c'\<rparr>" using gG by blast
          moreover have "merge_team_row ?M t k = Some ?c'" using res ge tie by simp
          ultimately show ?thesis by (intro final)
        next
          case nt: False
          have "level c = max (level t) (level c)" using ge by simp
          moreover have "\<exists>g \<in> ?G (ts @ [t]). c = g\<lparr>viaTeam := viaTeam c\<rparr>" using gG g(2) by blast
          moreover have "merge_team_row ?M t k = Some c" using res ge nt by simp
          ultimately show ?thesis using c(1) by (intro final)
        qed
      qed
    qed
  qed
qed

lemma rowsByKey_props:
  assumes "distinct (map key_of cs)"
  shows "(rowsByKey cs ts k = None) = (\<forall>g \<in> set cs \<union> set ts. key_of g \<noteq> k)"
    and "rowsByKey cs ts k = Some r \<Longrightarrow>
           key_of r = k
           \<and> level r = Max (level ` {g \<in> set cs \<union> set ts. key_of g = k})
           \<and> (\<exists>g \<in> set cs \<union> set ts. key_of g = k \<and> r = g\<lparr>viaTeam := viaTeam r\<rparr>)"
proof -
  have keys: "\<And>k c. seed cs k = Some c \<Longrightarrow> key_of c = k" by (simp add: seed_Some)
  have direct: "set_option (seed cs k) = {c \<in> set cs. key_of c = k}"
  proof (intro set_eqI iffI)
    fix c assume "c \<in> set_option (seed cs k)"
    then show "c \<in> {c \<in> set cs. key_of c = k}" by (auto simp: elem_set dest: seed_Some)
  next
    fix c assume "c \<in> {c \<in> set cs. key_of c = k}"
    then show "c \<in> set_option (seed cs k)"
      using seed_distinct [OF assms, of c] by (auto simp: elem_set)
  qed
  have G: "set_option (seed cs k) \<union> {t \<in> set ts. key_of t = k} = {g \<in> set cs \<union> set ts. key_of g = k}"
    unfolding direct by auto
  note inv = merge_invariant [where ?m0.0 = "seed cs" and ts = ts and k = k, OF keys,
      unfolded G, folded rowsByKey_def]
  show "(rowsByKey cs ts k = None) = (\<forall>g \<in> set cs \<union> set ts. key_of g \<noteq> k)"
  proof (cases "rowsByKey cs ts k")
    case None
    with inv show ?thesis by (auto simp: seed_None)
  next
    case (Some r)
    with inv have "\<exists>g \<in> {g \<in> set cs \<union> set ts. key_of g = k}. r = g\<lparr>viaTeam := viaTeam r\<rparr>" by simp
    with Some show ?thesis by auto
  qed
  show "key_of r = k
           \<and> level r = Max (level ` {g \<in> set cs \<union> set ts. key_of g = k})
           \<and> (\<exists>g \<in> set cs \<union> set ts. key_of g = k \<and> r = g\<lparr>viaTeam := viaTeam r\<rparr>)"
    if "rowsByKey cs ts k = Some r"
    using inv that by auto
qed

text \<open>
  C1: after step 9 there is one row per key \<^verbatim>\<open>repo:login\<close>, exactly for the keys that some
  grant has; two rows of the same repository and login are the same row; and the
  permission of the row is the highest, in \<^verbatim>\<open>$order\<close>, among the direct rows and the team
  rows of that key, the team rows being those step 7 expands from the team-repository
  grants over the team members. The row is one of these grants, up to its \<^verbatim>\<open>viaTeam\<close>.
  So a lower team grant never lowers a higher direct grant, and a higher team grant
  replaces a lower direct one. The direct rows are taken with one row per key, as the
  collaborator listing gives them.
\<close>

theorem merged_permission_is_maximum:
  assumes "distinct (map key_of cs)"
  shows "((rowsByKey cs (teamUserRepoPerms Org trps tms) k = None)
            = (\<forall>g \<in> set cs \<union> set (teamUserRepoPerms Org trps tms). key_of g \<noteq> k))
       \<and> (\<forall>r. rowsByKey cs (teamUserRepoPerms Org trps tms) k = Some r \<longrightarrow>
            key_of r = k
            \<and> level r = Max (level ` {g \<in> set cs \<union> set (teamUserRepoPerms Org trps tms). key_of g = k})
            \<and> (\<exists>g \<in> set cs \<union> set (teamUserRepoPerms Org trps tms).
                  key_of g = k \<and> r = g\<lparr>viaTeam := viaTeam r\<rparr>))
       \<and> (\<forall>k' r r'. rowsByKey cs (teamUserRepoPerms Org trps tms) k = Some r
                    \<and> rowsByKey cs (teamUserRepoPerms Org trps tms) k' = Some r'
                    \<and> orgRepo r = orgRepo r' \<and> login r = login r' \<longrightarrow> k' = k \<and> r' = r)"
proof (intro conjI allI impI)
  let ?ts = "teamUserRepoPerms Org trps tms"
  show "(rowsByKey cs ?ts k = None) = (\<forall>g \<in> set cs \<union> set ?ts. key_of g \<noteq> k)"
    by (rule rowsByKey_props(1) [OF assms])
  fix r assume r: "rowsByKey cs ?ts k = Some r"
  from rowsByKey_props(2) [OF assms r]
  show "key_of r = k"
    and "level r = Max (level ` {g \<in> set cs \<union> set ?ts. key_of g = k})"
    and "\<exists>g \<in> set cs \<union> set ?ts. key_of g = k \<and> r = g\<lparr>viaTeam := viaTeam r\<rparr>"
    by blast+
next
  let ?ts = "teamUserRepoPerms Org trps tms"
  fix k' r r'
  assume a: "rowsByKey cs ?ts k = Some r \<and> rowsByKey cs ?ts k' = Some r'
             \<and> orgRepo r = orgRepo r' \<and> login r = login r'"
  then have "key_of r = k" "key_of r' = k'"
    using rowsByKey_props(2) [OF assms] by blast+
  moreover have "key_of r = key_of r'" using a by (simp add: key_of_def)
  ultimately have kk: "k' = k" by simp
  then show "k' = k" .
  from a kk show "r' = r" by (metis option.inject)
qed

theorem merged_permission_is_maximum_witness:
  "rowsByKey
     [\<lparr>orgRepo = ''api'', login = ''ann'', permission = ''write'', org = ''acme'',
       orgpermission = [''MEMBER''], viaTeam = ''''\<rparr>]
     (teamUserRepoPerms ''acme''
        [\<lparr>trp_repo = ''api'', trp_team = ''a-team'', trp_permission = [''admin'', ''pull'', ''push'']\<rparr>]
        [\<lparr>tm_team = ''a-team'', tm_login = ''ann''\<rparr>])
     ''api:ann''
   = Some \<lparr>orgRepo = ''api'', login = ''ann'', permission = ''admin'', org = ''acme'',
           orgpermission = [''''], viaTeam = ''a-team''\<rparr>
   \<and> level \<lparr>orgRepo = ''api'', login = ''ann'', permission = ''admin'', org = ''acme'',
            orgpermission = [''''], viaTeam = ''a-team''\<rparr>
     = Max (level ` {g \<in> set [\<lparr>orgRepo = ''api'', login = ''ann'', permission = ''write'',
                              org = ''acme'', orgpermission = [''MEMBER''], viaTeam = ''''\<rparr>]
                       \<union> set (teamUserRepoPerms ''acme''
                            [\<lparr>trp_repo = ''api'', trp_team = ''a-team'',
                              trp_permission = [''admin'', ''pull'', ''push'']\<rparr>]
                            [\<lparr>tm_team = ''a-team'', tm_login = ''ann''\<rparr>]).
                     key_of g = ''api:ann''})"
proof -
  let ?cs = "[\<lparr>orgRepo = ''api'', login = ''ann'', permission = ''write'', org = ''acme'',
               orgpermission = [''MEMBER''], viaTeam = ''''\<rparr>]"
  let ?trps = "[\<lparr>trp_repo = ''api'', trp_team = ''a-team'', trp_permission = [''admin'', ''pull'', ''push'']\<rparr>]"
  let ?tms = "[\<lparr>tm_team = ''a-team'', tm_login = ''ann''\<rparr>]"
  let ?R = "\<lparr>orgRepo = ''api'', login = ''ann'', permission = ''admin'', org = ''acme'',
              orgpermission = [''''], viaTeam = ''a-team''\<rparr>"
  have d: "distinct (map key_of ?cs)" by simp
  have v: "rowsByKey ?cs (teamUserRepoPerms ''acme'' ?trps ?tms) ''api:ann'' = Some ?R"
    by (simp add: rowsByKey_def seed_def merge_team_row_def teamUserRepoPerms_def ps_array_def
        permissionDisplay_def key_of_def ToLower_def to_lower_def ps_eq_def order_def
        IsNullOrWhiteSpace_def)
  from merged_permission_is_maximum [OF d, of "''acme''" ?trps ?tms "''api:ann''"] v
  show ?thesis by blast
qed

lemma filter_unique:
  "distinct (map f xs) \<Longrightarrow> m \<in> set xs \<Longrightarrow> filter (\<lambda>x. f x = f m) xs = [m]"
proof (induction xs)
  case Nil
  then show ?case by simp
next
  case (Cons x xs)
  show ?case
  proof (cases "x = m")
    case True
    have "filter (\<lambda>y. f y = f m) xs = []"
      using Cons.prems(1) True by (auto simp: filter_empty_conv) (metis image_eqI)
    with True show ?thesis by simp
  next
    case False
    then have "m \<in> set xs" using Cons.prems(2) by simp
    moreover from this have "f x \<noteq> f m" using Cons.prems(1) by auto
    ultimately show ?thesis using Cons by simp
  qed
qed

lemma find_unique:
  "distinct (map f xs) \<Longrightarrow> m \<in> set xs \<Longrightarrow> find (\<lambda>x. f x = f m) xs = Some m"
proof (induction xs)
  case Nil
  then show ?case by simp
next
  case (Cons x xs)
  then show ?case by (cases "x = m") auto
qed

lemma memberValue_absent:
  "\<forall>m \<in> set ms. \<not> ps_eq (member_login m) l \<Longrightarrow> memberValue ms l = [''OUTSIDE COLLABORATOR'']"
  by (simp add: memberValue_def filter_empty_conv)

lemma memberValue_unique:
  assumes "distinct (map (ToLower \<circ> member_login) ms)" "m \<in> set ms" "ps_eq (member_login m) l"
  shows "memberValue ms l = [member_role m]"
proof -
  have "filter (\<lambda>x. ps_eq (member_login x) l) ms =
        filter (\<lambda>x. (ToLower \<circ> member_login) x = (ToLower \<circ> member_login) m) ms"
    by (rule filter_cong) (use assms(3) in \<open>auto simp: ps_eq_def\<close>)
  then have "filter (\<lambda>x. ps_eq (member_login x) l) ms = [m]"
    by (simp only: filter_unique [OF assms(1,2)])
  then show ?thesis by (simp add: memberValue_def)
qed

lemma fill_orgpermission_value:
  assumes "orgpermission r = memberValue ms (login r) \<or> orgpermission r = ['''']"
  shows "orgpermission (fill_orgpermission ms r) = memberValue ms (login r)"
    and "login (fill_orgpermission ms r) = login r"
    and "permission (fill_orgpermission ms r) = permission r"
    and "key_of (fill_orgpermission ms r) = key_of r"
  using assms by (auto simp: fill_orgpermission_def ps_true_def key_of_def)

lemma collabsArray_orgpermission:
  "c \<in> set (collabsArray P Keys Org ms repos) \<Longrightarrow> orgpermission c = memberValue ms (login c)"
  by (auto simp: collabsArray_def collab_rows_def Let_def split: if_splits)

lemma teamUserRepoPerms_orgpermission:
  "t \<in> set (teamUserRepoPerms Org trps tms) \<Longrightarrow> orgpermission t = ['''']"
  by (auto simp: teamUserRepoPerms_def)

lemma report_Some:
  assumes "report P Keys Org ms repos trps tms k = Some r"
  shows "\<exists>r0. rowsByKey (collabsArray P Keys Org ms repos) (teamUserRepoPerms Org trps tms) k = Some r0
              \<and> r = fill_orgpermission ms r0"
  using assms by (auto simp: report_def filter_rows_def split: if_splits option.splits)

lemma report_orgpermission:
  assumes "report P Keys Org ms repos trps tms k = Some r"
  shows "orgpermission r = memberValue ms (login r)"
proof -
  let ?cs = "collabsArray P Keys Org ms repos" and ?ts = "teamUserRepoPerms Org trps tms"
  from report_Some [OF assms] obtain r0
    where r0: "rowsByKey ?cs ?ts k = Some r0" "r = fill_orgpermission ms r0" by blast
  have keys: "\<And>k c. seed ?cs k = Some c \<Longrightarrow> key_of c = k" by (simp add: seed_Some)
  from merge_invariant [where ?m0.0 = "seed ?cs" and ts = ?ts and k = k, OF keys,
      folded rowsByKey_def] r0(1)
  obtain g where g: "g \<in> set_option (seed ?cs k) \<union> {t \<in> set ?ts. key_of t = k}"
      "r0 = g\<lparr>viaTeam := viaTeam r0\<rparr>"
    by auto
  have "orgpermission g = memberValue ms (login g) \<or> orgpermission g = ['''']"
    using g(1) collabsArray_orgpermission teamUserRepoPerms_orgpermission
    by (auto simp: elem_set dest!: seed_Some)
  moreover have "orgpermission r0 = orgpermission g" "login r0 = login g"
    by (subst g(2), simp)+
  ultimately have "orgpermission r0 = memberValue ms (login r0) \<or> orgpermission r0 = ['''']"
    by simp
  from fill_orgpermission_value(1,2) [OF this] r0(2) show ?thesis by simp
qed

lemma mergeArrays_memberValue:
  "sc \<in> set (mergeArrays collabs emailArray ms) \<Longrightarrow>
   sc_memberValue sc =
     (case find (\<lambda>member. member_login member = sc_login sc) ms of
        Some member \<Rightarrow> member_role member | None \<Rightarrow> ''OUTSIDE COLLABORATOR'')"
  by (auto simp: mergeArrays_def)

text \<open>
  C8: in every row of the PowerShell report and in every row \<^verbatim>\<open>mergeArrays\<close> of index.js
  builds, the organization role is the literal \<^verbatim>\<open>OUTSIDE COLLABORATOR\<close> when no member
  has the row's login, and the role of the member with that login otherwise, the
  members being a set with one entry per login. PowerShell compares the logins ignoring
  case, JavaScript exactly.
\<close>

theorem org_role_by_membership:
  "(report P Keys Org ms repos trps tms k = Some r \<longrightarrow>
      ((\<forall>m \<in> set ms. \<not> ps_eq (member_login m) (login r)) \<longrightarrow>
          orgpermission r = [''OUTSIDE COLLABORATOR''])
      \<and> (\<forall>m \<in> set ms. distinct (map (ToLower \<circ> member_login) ms) \<and> ps_eq (member_login m) (login r) \<longrightarrow>
          orgpermission r = [member_role m]))
   \<and> (sc \<in> set (mergeArrays collabs emailArray ms) \<longrightarrow>
      ((\<forall>m \<in> set ms. member_login m \<noteq> sc_login sc) \<longrightarrow>
          sc_memberValue sc = ''OUTSIDE COLLABORATOR'')
      \<and> (\<forall>m \<in> set ms. distinct (map member_login ms) \<and> member_login m = sc_login sc \<longrightarrow>
          sc_memberValue sc = member_role m))"
proof (intro conjI impI ballI)
  assume r: "report P Keys Org ms repos trps tms k = Some r"
  note v = report_orgpermission [OF r]
  show "orgpermission r = [''OUTSIDE COLLABORATOR'']"
    if "\<forall>m \<in> set ms. \<not> ps_eq (member_login m) (login r)"
    using v memberValue_absent [OF that] by simp
  show "orgpermission r = [member_role m]"
    if "m \<in> set ms" "distinct (map (ToLower \<circ> member_login) ms) \<and> ps_eq (member_login m) (login r)" for m
    using v memberValue_unique [of ms m "login r"] that by simp
next
  assume sc: "sc \<in> set (mergeArrays collabs emailArray ms)"
  note c = mergeArrays_memberValue [OF sc]
  show "sc_memberValue sc = ''OUTSIDE COLLABORATOR''"
    if "\<forall>m \<in> set ms. member_login m \<noteq> sc_login sc"
  proof -
    from that have "find (\<lambda>member. member_login member = sc_login sc) ms = None"
      by (simp add: find_None_iff)
    then show ?thesis by (simp add: c)
  qed
  show "sc_memberValue sc = member_role m"
    if "m \<in> set ms" "distinct (map member_login ms) \<and> member_login m = sc_login sc" for m
  proof -
    from that find_unique [of member_login ms m]
    have "find (\<lambda>member. member_login member = sc_login sc) ms = Some m"
      by simp
    then show ?thesis by (simp add: c)
  qed
qed

theorem org_role_by_membership_witness:
  "report ''ALL'' [''pull'', ''triage'', ''push'', ''maintain'', ''admin''] ''acme''
      [\<lparr>member_login = ''ann'', member_role = ''ADMIN''\<rparr>]
      [(''api'', [\<lparr>collab_login = ''bob'', collab_permissions = [(''pull'', True)]\<rparr>])] [] []
      ''api:bob''
     = Some \<lparr>orgRepo = ''api'', login = ''bob'', permission = ''read'', org = ''acme'',
             orgpermission = [''OUTSIDE COLLABORATOR''], viaTeam = ''''\<rparr>
   \<and> sc_memberValue (hd (mergeArrays
        [\<lparr>c_orgRepo = ''api'', c_login = ''ann'', c_name = ''Ann'', c_verifiedEmail = '''',
          c_permission = ''ADMIN'', c_visibility = ''PRIVATE'', c_org = ''acme''\<rparr>]
        [] [\<lparr>member_login = ''ann'', member_role = ''ADMIN''\<rparr>])) = ''ADMIN''"
proof -
  let ?ms = "[\<lparr>member_login = ''ann'', member_role = ''ADMIN''\<rparr>]"
  let ?Keys = "[''pull'', ''triage'', ''push'', ''maintain'', ''admin'']"
  let ?repos = "[(''api'', [\<lparr>collab_login = ''bob'', collab_permissions = [(''pull'', True)]\<rparr>])]"
  let ?cs = "[\<lparr>c_orgRepo = ''api'', c_login = ''ann'', c_name = ''Ann'', c_verifiedEmail = '''',
          c_permission = ''ADMIN'', c_visibility = ''PRIVATE'', c_org = ''acme''\<rparr>]"
  let ?sc = "hd (mergeArrays ?cs [] ?ms)"
  obtain r where r: "report ''ALL'' ?Keys ''acme'' ?ms ?repos [] [] ''api:bob'' = Some r"
    "r = \<lparr>orgRepo = ''api'', login = ''bob'', permission = ''read'', org = ''acme'',
             orgpermission = [''OUTSIDE COLLABORATOR''], viaTeam = ''''\<rparr>"
    by (simp add: report_def filter_rows_def rowsByKey_def seed_def collabsArray_def
        collab_rows_def teamUserRepoPerms_def directPerm_def flag_def permissionDisplay_def
        fill_orgpermission_def memberValue_def ps_true_def ps_eq_empty_def
        key_of_def ToLower_def to_lower_def ps_eq_def)
  have 1: "\<forall>m \<in> set ?ms. \<not> ps_eq (member_login m) (login r)"
    by (simp add: r(2) ps_eq_def ToLower_def to_lower_def)
  have 2: "?sc \<in> set (mergeArrays ?cs [] ?ms)" by (simp add: mergeArrays_def)
  have 3: "\<lparr>member_login = ''ann'', member_role = ''ADMIN''\<rparr> \<in> set ?ms"
    "distinct (map member_login ?ms)
     \<and> member_login \<lparr>member_login = ''ann'', member_role = ''ADMIN''\<rparr> = sc_login ?sc"
    by (simp_all add: mergeArrays_def)
  from org_role_by_membership
         [of "''ALL''" ?Keys "''acme''" ?ms ?repos "[]" "[]" "''api:bob''" r ?sc ?cs "[]"]
       r(1) 1 2 3
  have "orgpermission r = [''OUTSIDE COLLABORATOR'']"
    and "sc_memberValue ?sc = member_role \<lparr>member_login = ''ann'', member_role = ''ADMIN''\<rparr>"
    by blast+
  with r show ?thesis by simp
qed

section \<open>Properties of the permission filter\<close>












end
